theory Spec2Isabelle
  imports Main
begin

section \<open>The trie of Trie.h\<close>

text \<open>
  A shallow embedding of \<^verbatim>\<open>struct TrieNode\<close> and \<^verbatim>\<open>class Trie\<close>.
  A node owns its children by value (\<^verbatim>\<open>std::vector<TrieNode>\<close>), so the node graph is a
  finite tree and a node is a value of a datatype. A \<^verbatim>\<open>char\<close> is a byte, a
  \<^verbatim>\<open>std::string\<close> a list of bytes.
\<close>

definition ALPHA_SIZE :: nat where
  "ALPHA_SIZE = 26"

datatype TrieNode = TrieNode (data: char) (isWord: bool) (children: "TrieNode list")

text \<open>The node made by \<^verbatim>\<open>TrieNode() = default\<close>: the member initialisers and an empty vector.\<close>

definition TrieNode_default :: TrieNode where
  "TrieNode_default = TrieNode (CHR 0x00) False []"

text \<open>
  \<^verbatim>\<open>children.resize(ALPHA_SIZE)\<close>: a vector cut to its first 26 elements, or filled up to 26
  elements with default nodes.
\<close>

definition createChildren :: "TrieNode \<Rightarrow> TrieNode" where
  "createChildren n =
     TrieNode (data n) (isWord n)
       (take ALPHA_SIZE (children n) @
        replicate (ALPHA_SIZE - length (children n)) TrieNode_default)"

text \<open>The constructor \<^verbatim>\<open>TrieNode(char c)\<close>.\<close>

definition TrieNode_char :: "char \<Rightarrow> TrieNode" where
  "TrieNode_char c = createChildren (TrieNode c False [])"

definition hasChildren :: "TrieNode \<Rightarrow> bool" where
  "hasChildren n = list_ex (\<lambda>node. data node \<noteq> CHR 0x00) (children n)"

record Trie =
  m_root :: TrieNode

text \<open>The constructor \<^verbatim>\<open>Trie()\<close>.\<close>

definition Trie_new :: Trie where
  "Trie_new = \<lparr> m_root = TrieNode_char (CHR 0x00) \<rparr>"

subsection \<open>Failures\<close>

text \<open>
  \<^verbatim>\<open>AssertionFailed\<close> is the abort of a failed \<^verbatim>\<open>assert\<close> (the model is the build with
  assertions enabled). \<^verbatim>\<open>OutOfRange\<close> stands for \<^verbatim>\<open>operator[]\<close> of a vector outside its
  bounds, which is undefined behaviour in the source.
\<close>

datatype error = AssertionFailed | OutOfRange

text \<open>\<^verbatim>\<open>islower\<close> in the default "C" locale: the letters a to z, codes 97 to 122.\<close>

definition islower :: "char \<Rightarrow> bool" where
  "islower c = (97 \<le> (of_char c :: nat) \<and> (of_char c :: nat) \<le> 122)"

definition isLower :: "string \<Rightarrow> bool" where
  "isLower s = list_all islower s"

text \<open>
  The index \<^verbatim>\<open>c - 'a'\<close> into a vector of \<^verbatim>\<open>n\<close> elements. A character below \<^verbatim>\<open>'a'\<close> gives a
  negative \<^verbatim>\<open>int\<close>, which as a \<^verbatim>\<open>size_t\<close> is beyond every vector.
\<close>

definition in_range :: "char \<Rightarrow> nat \<Rightarrow> bool" where
  "in_range c n = (97 \<le> (of_char c :: nat) \<and> (of_char c :: nat) - 97 < n)"

definition slot :: "char \<Rightarrow> nat" where
  "slot c = (of_char c :: nat) - 97"

subsection \<open>insert\<close>

text \<open>
  What one round of the loop of \<^verbatim>\<open>Trie::insert\<close> does to the slot it indexes: create the
  children if there are none, store the letter, set the flag on the last letter.
\<close>

definition visit :: "char \<Rightarrow> bool \<Rightarrow> TrieNode \<Rightarrow> TrieNode" where
  "visit c atEnd trieNode =
     (let n1 = (if children trieNode = [] then createChildren trieNode else trieNode);
          n2 = TrieNode c (isWord n1) (children n1)
      in if atEnd then TrieNode (data n2) True (children n2) else n2)"

text \<open>
  The loop of \<^verbatim>\<open>Trie::insert\<close> from the node \<^verbatim>\<open>current\<close> on, over the rest of the string.
  The source writes through a pointer into the tree; here the changed child is written back
  into its slot when the rest of the loop has run.
\<close>

fun insertLoop :: "TrieNode \<Rightarrow> string \<Rightarrow> error + TrieNode" where
  "insertLoop current [] = Inr current"
| "insertLoop current (c # rest) =
     (if \<not> in_range c (length (children current)) then Inl OutOfRange
      else
        case insertLoop (visit c (rest = []) (children current ! slot c)) rest of
          Inl e \<Rightarrow> Inl e
        | Inr trieNode \<Rightarrow>
            Inr (TrieNode (data current) (isWord current)
                   ((children current)[slot c := trieNode])))"

text \<open>
  \<^verbatim>\<open>Trie::insert\<close>. The result is the pair of what the call returns and the trie after it;
  the source returns \<^verbatim>\<open>*this\<close>, the trie itself. When the assertion fails nothing has been
  written. After undefined behaviour nothing is known about the trie: the model reports the trie
  as it was.
\<close>

definition Trie_insert :: "string \<Rightarrow> Trie \<Rightarrow> (error + unit) \<times> Trie" where
  "Trie_insert s t =
     (if \<not> isLower s then (Inl AssertionFailed, t)
      else case insertLoop (m_root t) s of
             Inl e \<Rightarrow> (Inl e, t)
           | Inr r \<Rightarrow> (Inr (), t\<lparr> m_root := r \<rparr>))"

subsection \<open>isWord\<close>

text \<open>The loop of \<^verbatim>\<open>Trie::isWord\<close>, with its two locals \<^verbatim>\<open>current\<close> and \<^verbatim>\<open>isWord\<close>.\<close>

fun isWordLoop :: "TrieNode \<Rightarrow> bool \<Rightarrow> string \<Rightarrow> error + bool" where
  "isWordLoop current w [] = Inr w"
| "isWordLoop current w (c # rest) =
     (if children current = [] then Inr w
      else if \<not> in_range c (length (children current)) then Inl OutOfRange
      else isWordLoop (children current ! slot c) (isWord (children current ! slot c)) rest)"

definition Trie_isWord :: "string \<Rightarrow> Trie \<Rightarrow> (error + bool) \<times> Trie" where
  "Trie_isWord s t =
     (if \<not> isLower s then (Inl AssertionFailed, t)
      else (isWordLoop (m_root t) False s, t))"

subsection \<open>getWords\<close>

text \<open>
  \<^verbatim>\<open>Trie::getWordsImpl\<close>: \<^verbatim>\<open>substr\<close> and \<^verbatim>\<open>words\<close> are passed by reference, so the function
  takes them and returns them. \<^verbatim>\<open>getWordsFor\<close> is the range-for loop over the children.
\<close>

fun getWordsImpl :: "TrieNode \<Rightarrow> string \<Rightarrow> string list \<Rightarrow> string \<times> string list"
  and getWordsFor :: "TrieNode list \<Rightarrow> string \<Rightarrow> string list \<Rightarrow> string \<times> string list"
where
  "getWordsImpl (TrieNode d w cs) substr words = getWordsFor cs substr words"
| "getWordsFor [] substr words = (substr, words)"
| "getWordsFor (child # rest) substr words =
     (if data child = CHR 0x00 then getWordsFor rest substr words
      else
        let substr1 = substr @ [data child];
            words1 = (if isWord child then words @ [substr1] else words);
            substr2 = (if \<not> hasChildren child then [] else substr1)
        in case getWordsImpl child substr2 words1 of
             (substr3, words3) \<Rightarrow> getWordsFor rest substr3 words3)"

definition Trie_getWords :: "Trie \<Rightarrow> string list \<times> Trie" where
  "Trie_getWords t = (snd (getWordsImpl (m_root t) [] []), t)"

subsection \<open>Callers\<close>

text \<open>
  A valid word, as the contract of \<^verbatim>\<open>insert\<close> and \<^verbatim>\<open>isWord\<close> has it: not empty, letters a to z
  only.
\<close>

definition valid :: "string \<Rightarrow> bool" where
  "valid w = (w \<noteq> [] \<and> isLower w)"

text \<open>A chain \<^verbatim>\<open>t.insert(w1).insert(w2)...\<close>; it stops at the first call that fails.\<close>

fun insertMany :: "string list \<Rightarrow> Trie \<Rightarrow> (error + unit) \<times> Trie" where
  "insertMany [] t = (Inr (), t)"
| "insertMany (w # ws) t =
     (case Trie_insert w t of
        (Inl e, t') \<Rightarrow> (Inl e, t')
      | (Inr u, t') \<Rightarrow> insertMany ws t')"

text \<open>Any sequence of calls of the three operations, the results dropped.\<close>

datatype call = Insert string | IsWord string | GetWords

fun valid_call :: "call \<Rightarrow> bool" where
  "valid_call (Insert s) = valid s"
| "valid_call (IsWord s) = valid s"
| "valid_call GetWords = True"

fun exec :: "call \<Rightarrow> Trie \<Rightarrow> (error + unit) \<times> Trie" where
  "exec (Insert s) t = Trie_insert s t"
| "exec (IsWord s) t =
     (case Trie_isWord s t of
        (Inl e, t') \<Rightarrow> (Inl e, t')
      | (Inr b, t') \<Rightarrow> (Inr (), t'))"
| "exec GetWords t = (case Trie_getWords t of (ws, t') \<Rightarrow> (Inr (), t'))"

fun run :: "call list \<Rightarrow> Trie \<Rightarrow> (error + unit) \<times> Trie" where
  "run [] t = (Inr (), t)"
| "run (c # cs) t =
     (case exec c t of
        (Inl e, t') \<Rightarrow> (Inl e, t')
      | (Inr u, t') \<Rightarrow> run cs t')"

subsection \<open>Order of the words\<close>

text \<open>
  The lexicographic order of \<^verbatim>\<open>std::string\<close>: the first differing byte decides, and a proper
  prefix is smaller.
\<close>

fun lex_less :: "string \<Rightarrow> string \<Rightarrow> bool" where
  "lex_less [] [] = False"
| "lex_less [] (y # ys) = True"
| "lex_less (x # xs) [] = False"
| "lex_less (x # xs) (y # ys) =
     ((of_char x :: nat) < of_char y \<or> (x = y \<and> lex_less xs ys))"

fun strictly_increasing :: "string list \<Rightarrow> bool" where
  "strictly_increasing [] = True"
| "strictly_increasing [w] = True"
| "strictly_increasing (v # w # ws) = (lex_less v w \<and> strictly_increasing (w # ws))"

subsection \<open>Invariant and abstraction\<close>

text \<open>
  The allocation invariant: a node has exactly 26 slots; a slot whose \<^verbatim>\<open>data\<close> is unset is a
  default node, a slot whose \<^verbatim>\<open>data\<close> is set satisfies the invariant again.
\<close>

fun allocated :: "TrieNode \<Rightarrow> bool" where
  "allocated (TrieNode d w cs) =
     (length cs = ALPHA_SIZE \<and>
      (\<forall>c \<in> set cs. if data c = CHR 0x00 then c = TrieNode_default else allocated c))"

definition slot_ok :: "TrieNode \<Rightarrow> bool" where
  "slot_ok c = (if data c = CHR 0x00 then c = TrieNode_default else allocated c)"

text \<open>All nodes of the tree below a node, the node itself first.\<close>

fun nodes :: "TrieNode \<Rightarrow> TrieNode list" where
  "nodes (TrieNode d w cs) = TrieNode d w cs # concat (map nodes cs)"

text \<open>The flag at the end of the path that a string spells, false where the path leaves the tree.\<close>

fun lookup :: "TrieNode \<Rightarrow> string \<Rightarrow> bool" where
  "lookup n [] = isWord n"
| "lookup n (c # cs) =
     (in_range c (length (children n)) \<and> lookup (children n ! slot c) cs)"

section \<open>Properties\<close>

subsection \<open>Letters and slots\<close>

lemma allocated_iff:
  "allocated n \<longleftrightarrow> length (children n) = ALPHA_SIZE \<and> (\<forall>c \<in> set (children n). slot_ok c)"
  by (cases n) (simp add: slot_ok_def)

lemma islower_in_range: "islower c \<Longrightarrow> in_range c ALPHA_SIZE"
  by (auto simp: islower_def in_range_def ALPHA_SIZE_def)

lemma islower_nonzero: "islower c \<Longrightarrow> c \<noteq> CHR 0x00"
  by (auto simp: islower_def)

lemma slot_inj:
  assumes "islower c" "islower d" "slot c = slot d"
  shows "c = d"
proof -
  have "(of_char c :: nat) = of_char d"
    using assms unfolding islower_def slot_def by linarith
  then show ?thesis by simp
qed

lemma slot_ok_default: "slot_ok TrieNode_default"
  by (simp add: slot_ok_def TrieNode_default_def)

lemma slot_ok_cases:
  assumes "slot_ok ch"
  obtains (empty) "ch = TrieNode_default" | (occupied) "allocated ch" "data ch \<noteq> CHR 0x00"
  using assms by (auto simp: slot_ok_def split: if_splits)

lemma visit_allocated:
  assumes "slot_ok ch" "islower c"
  shows "allocated (visit c e ch)" "data (visit c e ch) = c"
    "isWord (visit c e ch) = (e \<or> isWord ch)"
    "slot_ok (visit c e ch)"
proof -
  show d: "data (visit c e ch) = c" and "isWord (visit c e ch) = (e \<or> isWord ch)"
    by (simp_all add: visit_def Let_def createChildren_def)
  show a: "allocated (visit c e ch)"
    using assms(1)
  proof (cases rule: slot_ok_cases)
    case empty
    then show ?thesis
      by (simp add: visit_def Let_def allocated_iff createChildren_def TrieNode_default_def
          slot_ok_def)
  next
    case occupied
    then have "children ch \<noteq> []" by (auto simp: allocated_iff ALPHA_SIZE_def)
    with occupied show ?thesis by (simp add: visit_def Let_def allocated_iff)
  qed
  show "slot_ok (visit c e ch)"
    using a d islower_nonzero[OF assms(2)] by (simp add: slot_ok_def)
qed

lemma allocated_nth:
  "allocated n \<Longrightarrow> in_range c ALPHA_SIZE \<Longrightarrow> slot_ok (children n ! slot c)"
  by (simp add: allocated_iff in_range_def slot_def)

lemma allocated_update:
  assumes "allocated cur" "slot_ok n" 
  shows "allocated (TrieNode d w ((children cur)[i := n]))"
proof -
  have "set ((children cur)[i := n]) \<subseteq> insert n (set (children cur))"
    by (rule set_update_subset_insert)
  with assms show ?thesis by (auto simp: allocated_iff)
qed

lemma insertLoop_allocated:
  assumes "allocated cur" "isLower s"
  shows "\<exists>n. insertLoop cur s = Inr n \<and> allocated n \<and> data n = data cur \<and> isWord n = isWord cur"
  using assms
proof (induction s arbitrary: cur)
  case Nil
  then show ?case by simp
next
  case (Cons c rest)
  from Cons.prems have lc: "islower c" and lr: "isLower rest"
    by (simp_all add: isLower_def)
  have len: "length (children cur) = ALPHA_SIZE"
    using Cons.prems(1) by (simp add: allocated_iff)
  have rng: "in_range c (length (children cur))"
    using lc len by (simp add: islower_in_range)
  let ?v = "visit c (rest = []) (children cur ! slot c)"
  have ok: "slot_ok (children cur ! slot c)"
    using Cons.prems(1) lc by (simp add: allocated_nth islower_in_range)
  have av: "allocated ?v" and dv: "data ?v = c"
    using visit_allocated[OF ok lc] by simp_all
  from Cons.IH[OF av lr] obtain n where
    n: "insertLoop ?v rest = Inr n" "allocated n" "data n = c"
    using dv by auto
  have "slot_ok n"
    using n(2,3) islower_nonzero[OF lc] by (simp add: slot_ok_def)
  then have "allocated (TrieNode (data cur) (isWord cur) ((children cur)[slot c := n]))"
    using Cons.prems(1) by (rule allocated_update[rotated])
  then show ?case
    using rng n(1) by simp
qed

subsection \<open>Membership\<close>

lemma in_range_islower: "in_range c ALPHA_SIZE \<longleftrightarrow> islower c"
  by (auto simp: islower_def in_range_def ALPHA_SIZE_def)

lemma lookup_default: "lookup TrieNode_default w = False"
  by (cases w) (simp_all add: TrieNode_default_def in_range_def)

lemma isWordLoop_lookup:
  assumes "slot_ok n" "isLower s"
  shows "isWordLoop n (isWord n) s = Inr (lookup n s)"
  using assms
proof (induction s arbitrary: n)
  case Nil
  then show ?case by simp
next
  case (Cons c rest)
  from Cons.prems have lc: "islower c" and lr: "isLower rest"
    by (simp_all add: isLower_def)
  from Cons.prems(1) show ?case
  proof (cases rule: slot_ok_cases)
    case empty
    then show ?thesis by (simp add: TrieNode_default_def in_range_def)
  next
    case occupied
    then have len: "length (children n) = ALPHA_SIZE"
      by (simp add: allocated_iff)
    then have ne: "children n \<noteq> []" by (auto simp: ALPHA_SIZE_def)
    have rng: "in_range c (length (children n))"
      using lc len by (simp add: islower_in_range)
    have "slot_ok (children n ! slot c)"
      using occupied(1) lc by (simp add: allocated_nth islower_in_range)
    from Cons.IH[OF this lr] show ?thesis
      using ne rng by simp
  qed
qed

lemma lookup_visit:
  assumes "slot_ok ch"
  shows "lookup (visit c e ch) w = (if w = [] then e \<or> isWord ch else lookup ch w)"
proof (cases w)
  case Nil
  then show ?thesis by (simp add: visit_def Let_def createChildren_def)
next
  case (Cons c' ws)
  from assms show ?thesis
  proof (cases rule: slot_ok_cases)
    case empty
    have "lookup (visit c e ch) (c' # ws) = False"
      using empty
      by (auto simp: visit_def Let_def createChildren_def TrieNode_default_def in_range_def
          slot_def lookup_default[unfolded TrieNode_default_def])
    moreover have "lookup ch (c' # ws) = False"
      unfolding empty by (rule lookup_default)
    ultimately show ?thesis
      unfolding Cons by (simp del: lookup.simps)
  next
    case occupied
    then have "children ch \<noteq> []" by (auto simp: allocated_iff ALPHA_SIZE_def)
    then show ?thesis using Cons by (simp add: visit_def Let_def)
  qed
qed

lemma lookup_insertLoop:
  assumes "allocated cur" "isLower s" "s \<noteq> []" "insertLoop cur s = Inr n"
  shows "lookup n w = (w = s \<or> lookup cur w)"
  using assms
proof (induction s arbitrary: cur n w)
  case Nil
  then show ?case by simp
next
  case (Cons c rest)
  from Cons.prems have lc: "islower c" and lr: "isLower rest"
    by (simp_all add: isLower_def)
  have len: "length (children cur) = ALPHA_SIZE"
    using Cons.prems(1) by (simp add: allocated_iff)
  have rng: "in_range c (length (children cur))"
    using lc len by (simp add: islower_in_range)
  then have sl: "slot c < length (children cur)"
    by (simp add: in_range_def slot_def)
  let ?ch = "children cur ! slot c"
  let ?v = "visit c (rest = []) ?ch"
  have ok: "slot_ok ?ch"
    using Cons.prems(1) lc by (simp add: allocated_nth islower_in_range)
  have av: "allocated ?v"
    using visit_allocated[OF ok lc] by simp
  obtain n' where n': "insertLoop ?v rest = Inr n'"
    using insertLoop_allocated[OF av lr] by blast
  have n: "n = TrieNode (data cur) (isWord cur) ((children cur)[slot c := n'])"
    using Cons.prems(4) rng n' by simp
  have below: "lookup n' ws = (ws = rest \<or> lookup ?ch ws)" for ws
  proof (cases "rest = []")
    case True
    then have "n' = ?v" using n' by simp
    then show ?thesis using True lookup_visit[OF ok, of c True ws] by auto
  next
    case False
    from Cons.IH[OF av lr False n'] have "lookup n' ws = (ws = rest \<or> lookup ?v ws)" .
    moreover have "lookup ?v ws = lookup ?ch ws"
      using False lookup_visit[OF ok, of c False ws] by (cases ws) simp_all
    ultimately show ?thesis by simp
  qed
  show ?case
  proof (cases w)
    case Nil
    then show ?thesis by (simp add: n)
  next
    case (Cons c' ws)
    show ?thesis
    proof (cases "in_range c' ALPHA_SIZE")
      case False
      then have "c' \<noteq> c" using lc by (auto simp: in_range_islower)
      then show ?thesis using False Cons len by (simp add: n)
    next
      case True
      then have lc': "islower c'" by (simp add: in_range_islower)
      show ?thesis
      proof (cases "slot c' = slot c")
        case same: True
        then have "c' = c" using slot_inj[OF lc' lc] by simp
        then show ?thesis
          using Cons True len sl below[of ws] by (simp add: n)
      next
        case diff: False
        then have "c' \<noteq> c" by auto
        then show ?thesis
          using Cons True len diff by (simp add: n)
      qed
    qed
  qed
qed

lemma allocated_root_new: "allocated (m_root Trie_new)"
  by (simp add: Trie_new_def TrieNode_char_def createChildren_def allocated_iff slot_ok_default)

lemma lookup_root_new: "lookup (m_root Trie_new) w = False"
proof (cases w)
  case Nil
  then show ?thesis by (simp add: Trie_new_def TrieNode_char_def createChildren_def)
next
  case (Cons c cs)
  then show ?thesis
    by (auto simp: Trie_new_def TrieNode_char_def createChildren_def in_range_def slot_def
        lookup_default)
qed

lemma Trie_insert_sem:
  assumes "allocated (m_root t)" "valid w"
  shows "\<exists>t'. Trie_insert w t = (Inr (), t') \<and> allocated (m_root t') \<and>
           data (m_root t') = data (m_root t) \<and> isWord (m_root t') = isWord (m_root t) \<and>
           (\<forall>v. lookup (m_root t') v = (v = w \<or> lookup (m_root t) v))"
proof -
  from assms(2) have lw: "isLower w" and ne: "w \<noteq> []" by (simp_all add: valid_def)
  from insertLoop_allocated[OF assms(1) lw] obtain n where
    n: "insertLoop (m_root t) w = Inr n" "allocated n" "data n = data (m_root t)"
      "isWord n = isWord (m_root t)" by blast
  have "lookup n v = (v = w \<or> lookup (m_root t) v)" for v
    by (rule lookup_insertLoop[OF assms(1) lw ne n(1)])
  then show ?thesis
    using n lw by (simp add: Trie_insert_def)
qed

lemma insertMany_sem:
  assumes "allocated (m_root t)" "\<forall>w \<in> set ws. valid w"
  shows "\<exists>t'. insertMany ws t = (Inr (), t') \<and> allocated (m_root t') \<and>
           data (m_root t') = data (m_root t) \<and> isWord (m_root t') = isWord (m_root t) \<and>
           (\<forall>v. lookup (m_root t') v = (v \<in> set ws \<or> lookup (m_root t) v))"
  using assms
proof (induction ws arbitrary: t)
  case Nil
  then show ?case by simp
next
  case (Cons w ws)
  from Cons.prems have vw: "valid w" and vws: "\<forall>w \<in> set ws. valid w" by simp_all
  from Trie_insert_sem[OF Cons.prems(1) vw] obtain t1 where
    t1: "Trie_insert w t = (Inr (), t1)" "allocated (m_root t1)"
      "data (m_root t1) = data (m_root t)" "isWord (m_root t1) = isWord (m_root t)"
      "\<forall>v. lookup (m_root t1) v = (v = w \<or> lookup (m_root t) v)" by blast
  from Cons.IH[OF t1(2) vws] obtain t2 where
    t2: "insertMany ws t1 = (Inr (), t2)" "allocated (m_root t2)"
      "data (m_root t2) = data (m_root t1)" "isWord (m_root t2) = isWord (m_root t1)"
      "\<forall>v. lookup (m_root t2) v = (v \<in> set ws \<or> lookup (m_root t1) v)" by blast
  have "insertMany (w # ws) t = (Inr (), t2)"
    using t1(1) t2(1) by simp
  moreover have "\<forall>v. lookup (m_root t2) v = (v \<in> set (w # ws) \<or> lookup (m_root t) v)"
    using t1(5) t2(5) by auto
  ultimately show ?case
    using t2(2,3,4) t1(3,4) by simp
qed

lemma Trie_isWord_lookup:
  assumes "allocated (m_root t)" "valid w"
  shows "Trie_isWord w t = (Inr (lookup (m_root t) w), t)"
proof -
  from assms(2) obtain c cs where w: "w = c # cs" and lc: "islower c" and lcs: "isLower cs"
    by (cases w) (auto simp: valid_def isLower_def)
  have len: "length (children (m_root t)) = ALPHA_SIZE"
    using assms(1) by (simp add: allocated_iff)
  then have ne: "children (m_root t) \<noteq> []" by (auto simp: ALPHA_SIZE_def)
  have rng: "in_range c (length (children (m_root t)))"
    using lc len by (simp add: islower_in_range)
  have "slot_ok (children (m_root t) ! slot c)"
    using assms(1) lc by (simp add: allocated_nth islower_in_range)
  from isWordLoop_lookup[OF this lcs] show ?thesis
    using ne rng lc lcs by (simp add: Trie_isWord_def w isLower_def)
qed

text \<open>
  C3. Membership is prior insertion: on the trie built from a fresh one by inserting the valid
  words \<open>ws\<close> in turn (every call of the chain returns), \<^verbatim>\<open>isWord\<close> of a valid word \<open>w\<close>
  returns true if and only if \<open>w\<close> is one of \<open>ws\<close>, and leaves the trie as it was.
\<close>

theorem isWord_iff_inserted:
  assumes "\<forall>v \<in> set ws. valid v" and "valid w"
  shows "\<exists>t. insertMany ws Trie_new = (Inr (), t) \<and> Trie_isWord w t = (Inr (w \<in> set ws), t)"
proof -
  from insertMany_sem[OF allocated_root_new assms(1)] obtain t where
    t: "insertMany ws Trie_new = (Inr (), t)" "allocated (m_root t)"
      "\<forall>v. lookup (m_root t) v = (v \<in> set ws \<or> lookup (m_root Trie_new) v)" by blast
  have "lookup (m_root t) w = (w \<in> set ws)"
    using t(3) by (simp add: lookup_root_new)
  with Trie_isWord_lookup[OF t(2) assms(2)] t(1) show ?thesis by simp
qed

theorem isWord_iff_inserted_witness:
  "valid ''ab'' \<and> valid ''ac'' \<and> valid ''a'' \<and>
   (\<exists>t. insertMany [''ab'', ''ac''] Trie_new = (Inr (), t) \<and>
        Trie_isWord ''ab'' t = (Inr True, t)) \<and>
   (\<exists>t. insertMany [''ab'', ''ac''] Trie_new = (Inr (), t) \<and>
        Trie_isWord ''a'' t = (Inr False, t))"
proof -
  have h1: "\<forall>v \<in> set [''ab'', ''ac'']. valid v"
    by (simp add: valid_def isLower_def islower_def)
  have h2: "valid ''ab''" and h3: "valid ''a''"
    by (simp_all add: valid_def isLower_def islower_def)
  from isWord_iff_inserted[OF h1 h2] isWord_iff_inserted[OF h1 h3] show ?thesis
    using h1 h2 h3 by simp
qed

subsection \<open>Enumeration\<close>

text \<open>
  C1. Round trip, at the input the claim names: after \<^verbatim>\<open>insert("ab")\<close> and \<^verbatim>\<open>insert("ac")\<close> on a
  fresh trie, both of which return, \<^verbatim>\<open>getWords\<close> returns \<open>[''ab'', ''c'']\<close>, which is not the
  list \<open>[''ab'', ''ac'']\<close> of the inserted words: the buffer was cleared at the leaf of
  \<open>''ab''\<close> and the prefix \<open>''a''\<close> is lost for the sibling.
\<close>

theorem getWords_ab_ac:
  "fst (insertMany [''ab'', ''ac''] Trie_new) = Inr () \<and>
   fst (Trie_getWords (snd (insertMany [''ab'', ''ac''] Trie_new))) = [''ab'', ''c''] \<and>
   fst (Trie_getWords (snd (insertMany [''ab'', ''ac''] Trie_new))) \<noteq> [''ab'', ''ac'']"
  by code_simp

text \<open>
  C2. Sorted enumeration, at a failing input: after \<^verbatim>\<open>insert("ba")\<close> and \<^verbatim>\<open>insert("bb")\<close> on a
  fresh trie, \<^verbatim>\<open>getWords\<close> returns \<open>[''ba'', ''b'']\<close>, which is not strictly increasing.
\<close>

theorem getWords_ba_bb:
  "fst (insertMany [''ba'', ''bb''] Trie_new) = Inr () \<and>
   fst (Trie_getWords (snd (insertMany [''ba'', ''bb''] Trie_new))) = [''ba'', ''b''] \<and>
   \<not> strictly_increasing (fst (Trie_getWords (snd (insertMany [''ba'', ''bb''] Trie_new))))"
  by code_simp

subsection \<open>The assertion and the empty string\<close>

text \<open>
  C9. The empty string at the public interface: on every trie \<^verbatim>\<open>isWord("")\<close> passes the
  assertion and returns false, \<^verbatim>\<open>insert("")\<close> passes the assertion, returns, and leaves the
  trie as it was, and \<^verbatim>\<open>isLower("")\<close> is true.
\<close>

theorem empty_string:
  "Trie_isWord [] t = (Inr False, t) \<and> Trie_insert [] t = (Inr (), t) \<and> isLower []"
  by (simp add: Trie_isWord_def Trie_insert_def isLower_def)

text \<open>
  C4, as claimed, fails: the empty string is not a valid word, yet on a fresh trie \<^verbatim>\<open>insert("")\<close>
  and \<^verbatim>\<open>isWord("")\<close> return normally; the assertion \<^verbatim>\<open>isLower(s)\<close> holds of the empty string.
\<close>

theorem empty_string_not_rejected:
  "\<not> valid [] \<and> Trie_insert [] Trie_new = (Inr (), Trie_new) \<and>
   Trie_isWord [] Trie_new = (Inr False, Trie_new)"
  by (simp add: Trie_isWord_def Trie_insert_def isLower_def valid_def)

text \<open>
  C4, amended. With assertions enabled, \<^verbatim>\<open>insert\<close> and \<^verbatim>\<open>isWord\<close> abort on every string that
  contains a character outside a to z, and the trie is as it was when the assertion fires. (The
  empty string is not rejected.)
\<close>

theorem assert_rejects_non_lowercase:
  assumes "c \<in> set s" and "\<not> islower c"
  shows "Trie_insert s t = (Inl AssertionFailed, t) \<and> Trie_isWord s t = (Inl AssertionFailed, t)"
proof -
  from assms have "\<not> isLower s"
    by (auto simp: isLower_def list_all_iff)
  then show ?thesis
    by (simp add: Trie_insert_def Trie_isWord_def)
qed

theorem assert_rejects_non_lowercase_witness:
  "CHR ''B'' \<in> set ''aB'' \<and> \<not> islower CHR ''B'' \<and>
   Trie_insert ''aB'' Trie_new = (Inl AssertionFailed, Trie_new) \<and>
   Trie_isWord ''aB'' Trie_new = (Inl AssertionFailed, Trie_new)"
proof -
  have h1: "CHR ''B'' \<in> set ''aB''" by simp
  have h2: "\<not> islower CHR ''B''" by (simp add: islower_def)
  from assert_rejects_non_lowercase[OF h1 h2, of Trie_new] show ?thesis
    using h1 h2 by simp
qed

subsection \<open>Reading leaves the trie alone\<close>

text \<open>
  C7. \<^verbatim>\<open>isWord\<close> and \<^verbatim>\<open>getWords\<close> are pure: the trie after either call is the trie before it
  (the whole node graph: labels, flags, slots), so every later \<^verbatim>\<open>isWord\<close> and \<^verbatim>\<open>getWords\<close>
  gives what it would have given before. Neither function of the source assigns to a node: the
  loops write the locals \<^verbatim>\<open>current\<close>, \<^verbatim>\<open>isWord\<close>, \<^verbatim>\<open>substr\<close> and \<^verbatim>\<open>words\<close> only.
\<close>

theorem reads_leave_trie:
  "snd (Trie_isWord s t) = t \<and> snd (Trie_getWords t) = t \<and>
   Trie_isWord v (snd (Trie_isWord s t)) = Trie_isWord v t \<and>
   Trie_getWords (snd (Trie_isWord s t)) = Trie_getWords t \<and>
   Trie_isWord v (snd (Trie_getWords t)) = Trie_isWord v t \<and>
   Trie_getWords (snd (Trie_getWords t)) = Trie_getWords t"
  by (simp add: Trie_isWord_def Trie_getWords_def)

subsection \<open>The root\<close>

lemma exec_valid:
  assumes "allocated (m_root t)" "valid_call c"
  shows "\<exists>t'. exec c t = (Inr (), t') \<and> allocated (m_root t') \<and>
           data (m_root t') = data (m_root t) \<and> isWord (m_root t') = isWord (m_root t)"
proof (cases c)
  case (Insert s)
  then show ?thesis using Trie_insert_sem[OF assms(1), of s] assms(2) by auto
next
  case (IsWord s)
  then show ?thesis using Trie_isWord_lookup[OF assms(1), of s] assms by simp
next
  case GetWords
  then show ?thesis using assms(1) by (simp add: Trie_getWords_def)
qed

lemma run_valid:
  assumes "allocated (m_root t)" "\<forall>c \<in> set cs. valid_call c"
  shows "\<exists>t'. run cs t = (Inr (), t') \<and> allocated (m_root t') \<and>
           data (m_root t') = data (m_root t) \<and> isWord (m_root t') = isWord (m_root t)"
  using assms
proof (induction cs arbitrary: t)
  case Nil
  then show ?case by simp
next
  case (Cons c cs)
  from Cons.prems have vc: "valid_call c" and vcs: "\<forall>c \<in> set cs. valid_call c" by simp_all
  from exec_valid[OF Cons.prems(1) vc] obtain t1 where
    t1: "exec c t = (Inr (), t1)" "allocated (m_root t1)"
      "data (m_root t1) = data (m_root t)" "isWord (m_root t1) = isWord (m_root t)" by blast
  from Cons.IH[OF t1(2) vcs] obtain t2 where
    t2: "run cs t1 = (Inr (), t2)" "allocated (m_root t2)"
      "data (m_root t2) = data (m_root t1)" "isWord (m_root t2) = isWord (m_root t1)" by blast
  show ?case using t1 t2 by simp
qed

text \<open>
  C8. Root identity: after any sequence of valid calls of \<^verbatim>\<open>insert\<close>, \<^verbatim>\<open>isWord\<close> and
  \<^verbatim>\<open>getWords\<close> on a fresh trie (the empty sequence is the fresh trie itself) every call has
  returned, the root's \<^verbatim>\<open>data\<close> is still the zero byte and its \<^verbatim>\<open>isWord\<close> flag is still false.
\<close>

theorem root_identity:
  assumes "\<forall>c \<in> set cs. valid_call c"
  shows "\<exists>t. run cs Trie_new = (Inr (), t) \<and> data (m_root t) = CHR 0x00 \<and> \<not> isWord (m_root t)"
proof -
  have "data (m_root Trie_new) = CHR 0x00" "\<not> isWord (m_root Trie_new)"
    by (simp_all add: Trie_new_def TrieNode_char_def createChildren_def)
  with run_valid[OF allocated_root_new assms] show ?thesis by auto
qed

theorem root_identity_witness:
  "valid_call (Insert ''ab'') \<and> valid_call (IsWord ''ab'') \<and> valid_call GetWords \<and>
   valid_call (Insert ''ac'') \<and>
   (\<exists>t. run [Insert ''ab'', IsWord ''ab'', GetWords, Insert ''ac''] Trie_new = (Inr (), t) \<and>
        data (m_root t) = CHR 0x00 \<and> \<not> isWord (m_root t))"
proof -
  have h: "\<forall>c \<in> set [Insert ''ab'', IsWord ''ab'', GetWords, Insert ''ac'']. valid_call c"
    by (simp add: valid_def isLower_def islower_def)
  from root_identity[OF h] show ?thesis
    using h by simp
qed

subsection \<open>Allocation\<close>

lemma nodes_unfold: "nodes n = n # concat (map nodes (children n))"
  by (cases n) simp

lemma slot_ok_below:
  "allocated n \<Longrightarrow> m \<in> set (concat (map nodes (children n))) \<Longrightarrow> slot_ok m"
proof (induction n arbitrary: m)
  case (TrieNode d w cs)
  from TrieNode.prems(2) obtain c where c: "c \<in> set cs" and m: "m \<in> set (nodes c)"
    by auto
  have okc: "slot_ok c"
    using TrieNode.prems(1) c by (simp add: allocated_iff)
  from m have "m = c \<or> m \<in> set (concat (map nodes (children c)))"
    by (subst (asm) nodes_unfold) simp
  then show ?case
  proof
    assume "m = c"
    then show ?thesis using okc by simp
  next
    assume below: "m \<in> set (concat (map nodes (children c)))"
    then have "children c \<noteq> []" by auto
    then have "c \<noteq> TrieNode_default" by (auto simp: TrieNode_default_def)
    then have "allocated c" using okc by (auto simp: slot_ok_def split: if_splits)
    from TrieNode.IH[OF c this below] show ?thesis .
  qed
qed

lemma flagged_has_children:
  assumes "allocated n" "m \<in> set (nodes n)" "isWord m"
  shows "children m \<noteq> []"
proof -
  from assms(2) have "m = n \<or> m \<in> set (concat (map nodes (children n)))"
    by (subst (asm) nodes_unfold) simp
  then have "allocated m"
  proof
    assume "m = n"
    then show ?thesis using assms(1) by simp
  next
    assume "m \<in> set (concat (map nodes (children n)))"
    from slot_ok_below[OF assms(1) this] show ?thesis
      using assms(3) by (auto simp: slot_ok_def TrieNode_default_def split: if_splits)
  qed
  then show ?thesis by (auto simp: allocated_iff ALPHA_SIZE_def)
qed

text \<open>
  C10. Allocation invariant: after any chain of valid insertions on a fresh trie, the root has
  exactly 26 slots; every node below the root is either an empty slot, and then the default node
  (\<^verbatim>\<open>data\<close> unset, flag false, no children), or an occupied one with exactly 26 slots (the
  recursive form of this is \<open>allocated\<close>); and no node of the tree with its \<^verbatim>\<open>isWord\<close> flag
  set has an empty children vector.
\<close>

theorem allocation_invariant:
  assumes "\<forall>w \<in> set ws. valid w"
  shows "\<exists>t. insertMany ws Trie_new = (Inr (), t) \<and>
           allocated (m_root t) \<and>
           length (children (m_root t)) = ALPHA_SIZE \<and>
           (\<forall>n \<in> set (concat (map nodes (children (m_root t)))).
               if data n = CHR 0x00 then n = TrieNode_default
               else length (children n) = ALPHA_SIZE) \<and>
           (\<forall>n \<in> set (nodes (m_root t)). isWord n \<longrightarrow> children n \<noteq> [])"
proof -
  from insertMany_sem[OF allocated_root_new assms] obtain t where
    t: "insertMany ws Trie_new = (Inr (), t)" "allocated (m_root t)" by blast
  have "if data n = CHR 0x00 then n = TrieNode_default else length (children n) = ALPHA_SIZE"
    if "n \<in> set (concat (map nodes (children (m_root t))))" for n
    using slot_ok_below[OF t(2) that] by (auto simp: slot_ok_def allocated_iff)
  moreover have "children n \<noteq> []" if "n \<in> set (nodes (m_root t))" "isWord n" for n
    using flagged_has_children[OF t(2) that] .
  moreover have "length (children (m_root t)) = ALPHA_SIZE"
    using t(2) by (simp add: allocated_iff)
  ultimately show ?thesis using t by blast
qed

theorem allocation_invariant_witness:
  "valid ''ab'' \<and> valid ''a'' \<and>
   (\<exists>t. insertMany [''ab'', ''a''] Trie_new = (Inr (), t) \<and>
        allocated (m_root t) \<and>
        length (children (m_root t)) = ALPHA_SIZE \<and>
        (\<forall>n \<in> set (concat (map nodes (children (m_root t)))).
            if data n = CHR 0x00 then n = TrieNode_default
            else length (children n) = ALPHA_SIZE) \<and>
        (\<forall>n \<in> set (nodes (m_root t)). isWord n \<longrightarrow> children n \<noteq> []))"
proof -
  have h: "\<forall>w \<in> set [''ab'', ''a'']. valid w"
    by (simp add: valid_def isLower_def islower_def)
  from allocation_invariant[OF h] show ?thesis
    using h by (simp del: insertMany.simps)
qed

subsection \<open>Inserting twice, inserting in another order\<close>

lemma visit_sel:
  "data (visit c e x) = c" "isWord (visit c e x) = (e \<or> isWord x)" "children (visit c e x) \<noteq> []"
  by (auto simp: visit_def Let_def createChildren_def ALPHA_SIZE_def)

lemma visit_filled:
  "children x \<noteq> [] \<Longrightarrow> visit c e x = TrieNode c (e \<or> isWord x) (children x)"
  by (simp add: visit_def Let_def)

lemma visit_stable:
  assumes "children x \<noteq> []" "data x = c" "e \<longrightarrow> isWord x"
  shows "visit c e x = x"
  using assms by (cases x) (auto simp: visit_filled)

lemma visit_visit:
  "visit c e (visit c e' x) = visit c e' (visit c e x)"
  by (auto simp: visit_def Let_def createChildren_def ALPHA_SIZE_def)

lemma insertLoop_Cons_Inr:
  assumes "insertLoop cur (c # rest) = Inr n"
  obtains n' where "in_range c (length (children cur))"
    "insertLoop (visit c (rest = []) (children cur ! slot c)) rest = Inr n'"
    "n = TrieNode (data cur) (isWord cur) ((children cur)[slot c := n'])"
  using assms by (auto split: if_splits sum.splits)

lemma insertLoop_frame:
  assumes "insertLoop cur s = Inr n"
  shows "data n = data cur" "isWord n = isWord cur" "length (children n) = length (children cur)"
  using assms by (cases s; auto split: if_splits sum.splits)+

lemma insertLoop_idem:
  "insertLoop cur s = Inr n \<Longrightarrow> insertLoop n s = Inr n"
proof (induction s arbitrary: cur n)
  case Nil
  then show ?case by simp
next
  case (Cons c rest)
  let ?v = "visit c (rest = []) (children cur ! slot c)"
  from Cons.prems obtain n' where
    rng: "in_range c (length (children cur))" and
    n': "insertLoop ?v rest = Inr n'" and
    n: "n = TrieNode (data cur) (isWord cur) ((children cur)[slot c := n'])"
    by (rule insertLoop_Cons_Inr)
  from rng have sl: "slot c < length (children cur)"
    by (simp add: in_range_def slot_def)
  have "children n' \<noteq> []" "data n' = c" "rest = [] \<longrightarrow> isWord n'"
    using insertLoop_frame[OF n'] visit_sel[of c "rest = []" "children cur ! slot c"]
    by auto
  then have st: "visit c (rest = []) n' = n'" by (rule visit_stable)
  have again: "insertLoop n' rest = Inr n'" using n' by (rule Cons.IH)
  show ?case
    using rng sl st again by (simp add: n)
qed

lemma insertLoop_visit:
  assumes "insertLoop x r = Inr y" "children x \<noteq> []"
  shows "insertLoop (visit c e x) r = Inr (visit c e y)"
proof (cases r)
  case Nil
  then show ?thesis using assms by simp
next
  case (Cons c' r')
  from assms(1) obtain n' where
    rng: "in_range c' (length (children x))" and
    n': "insertLoop (visit c' (r' = []) (children x ! slot c')) r' = Inr n'" and
    y: "y = TrieNode (data x) (isWord x) ((children x)[slot c' := n'])"
    unfolding Cons by (rule insertLoop_Cons_Inr)
  have "children y \<noteq> []" using assms(2) y by simp
  then show ?thesis
    using assms(2) rng n' by (simp add: Cons visit_filled y)
qed

lemma insertLoop_comm:
  assumes "allocated cur" "isLower a" "isLower b"
    "insertLoop cur a = Inr na" "insertLoop na b = Inr nab"
    "insertLoop cur b = Inr nb" "insertLoop nb a = Inr nba"
  shows "nab = nba"
  using assms
proof (induction a arbitrary: b cur na nab nb nba)
  case Nil
  then show ?case by simp
next
  case (Cons c ra)
  show ?case
  proof (cases b)
    case Nil
    then have "nb = cur" "nab = na"
      using Cons.prems(5,6) by simp_all
    then show ?thesis using Cons.prems(4,7) by (simp del: insertLoop.simps)
  next
    case b: (Cons d rb)
    from Cons.prems(2) have lc: "islower c" and lra: "isLower ra"
      by (simp_all add: isLower_def)
    from Cons.prems(3) have ld: "islower d" and lrb: "isLower rb"
      by (simp_all add: isLower_def b)
    let ?cs = "children cur"
    let ?va = "visit c (ra = []) (?cs ! slot c)"
    let ?vb = "visit d (rb = []) (?cs ! slot d)"
    have len: "length ?cs = ALPHA_SIZE"
      using Cons.prems(1) by (simp add: allocated_iff)
    have slc: "slot c < length ?cs" and sld: "slot d < length ?cs"
      using islower_in_range[OF lc] islower_in_range[OF ld] len
      by (simp_all add: in_range_def slot_def)
    from Cons.prems(4) obtain A where
      A: "insertLoop ?va ra = Inr A" and
      na: "na = TrieNode (data cur) (isWord cur) (?cs[slot c := A])"
      by (rule insertLoop_Cons_Inr)
    from Cons.prems(6) obtain B where
      B: "insertLoop ?vb rb = Inr B" and
      nb: "nb = TrieNode (data cur) (isWord cur) (?cs[slot d := B])"
      unfolding b by (rule insertLoop_Cons_Inr)
    from Cons.prems(5) obtain AB where
      AB: "insertLoop (visit d (rb = []) (children na ! slot d)) rb = Inr AB" and
      nab: "nab = TrieNode (data na) (isWord na) ((children na)[slot d := AB])"
      unfolding b by (rule insertLoop_Cons_Inr)
    from Cons.prems(7) obtain BA where
      BA: "insertLoop (visit c (ra = []) (children nb ! slot c)) ra = Inr BA" and
      nba: "nba = TrieNode (data nb) (isWord nb) ((children nb)[slot c := BA])"
      by (rule insertLoop_Cons_Inr)
    show ?thesis
    proof (cases "slot c = slot d")
      case False
      have "AB = B" using AB B False sld by (simp add: na)
      moreover have "BA = A" using BA A False slc by (simp add: nb)
      ultimately show ?thesis
        using False by (simp add: nab nba na nb list_update_swap)
    next
      case True
      then have cd: "d = c" using slot_inj[OF lc ld] by simp
      let ?ch = "?cs ! slot c"
      let ?x = "visit c (rb = []) (visit c (ra = []) ?ch)"
      have ok: "slot_ok ?ch"
        using Cons.prems(1) lc by (simp add: allocated_nth islower_in_range)
      have ax: "allocated ?x"
        using visit_allocated(4)[OF ok lc, of "ra = []"] lc by (simp add: visit_allocated(1))
      have x_ra: "insertLoop ?x ra = Inr (visit c (rb = []) A)"
        using A by (rule insertLoop_visit) (simp add: visit_sel)
      have "insertLoop (visit c (ra = []) (visit c (rb = []) ?ch)) rb = Inr (visit c (ra = []) B)"
        using B unfolding cd by (rule insertLoop_visit) (simp add: visit_sel)
      then have x_rb: "insertLoop ?x rb = Inr (visit c (ra = []) B)"
        by (simp add: visit_visit[of c "rb = []" "ra = []"])
      have AB': "insertLoop (visit c (rb = []) A) rb = Inr AB"
        using AB slc by (simp add: na cd)
      have BA': "insertLoop (visit c (ra = []) B) ra = Inr BA"
        using BA slc by (simp add: nb cd)
      have "AB = BA"
        using ax lra lrb x_ra AB' x_rb BA' by (rule Cons.IH)
      then show ?thesis
        by (simp add: nab nba na nb cd)
    qed
  qed
qed


lemma Trie_insert_Inr:
  assumes "Trie_insert w t = (Inr (), t1)"
  obtains r where "isLower w" "insertLoop (m_root t) w = Inr r" "t1 = t\<lparr> m_root := r \<rparr>"
  using assms by (auto simp: Trie_insert_def split: if_splits sum.splits)

lemma Trie_insert_idem:
  assumes "Trie_insert w t = (Inr (), t1)"
  shows "Trie_insert w t1 = (Inr (), t1)"
proof -
  from assms obtain r where
    r: "isLower w" "insertLoop (m_root t) w = Inr r" "t1 = t\<lparr> m_root := r \<rparr>"
    by (rule Trie_insert_Inr)
  from insertLoop_idem[OF r(2)] show ?thesis
    using r(1) by (simp add: Trie_insert_def r(3))
qed

lemma Trie_insert_comm:
  assumes "allocated (m_root t)" "valid a" "valid b"
    "Trie_insert a t = (Inr (), ta)" "Trie_insert b ta = (Inr (), tab)"
    "Trie_insert b t = (Inr (), tb)" "Trie_insert a tb = (Inr (), tba)"
  shows "tab = tba"
proof -
  from assms(4) obtain ra where
    ra: "insertLoop (m_root t) a = Inr ra" "ta = t\<lparr> m_root := ra \<rparr>"
    by (rule Trie_insert_Inr)
  from assms(5) obtain rab where
    rab: "insertLoop (m_root ta) b = Inr rab" "tab = ta\<lparr> m_root := rab \<rparr>"
    by (rule Trie_insert_Inr)
  from assms(6) obtain rb where
    rb: "insertLoop (m_root t) b = Inr rb" "tb = t\<lparr> m_root := rb \<rparr>"
    by (rule Trie_insert_Inr)
  from assms(7) obtain rba where
    rba: "insertLoop (m_root tb) a = Inr rba" "tba = tb\<lparr> m_root := rba \<rparr>"
    by (rule Trie_insert_Inr)
  have la: "isLower a" and lb: "isLower b"
    using assms(2,3) by (simp_all add: valid_def)
  have "insertLoop ra b = Inr rab" "insertLoop rb a = Inr rba"
    using rab(1) rba(1) by (simp_all add: ra(2) rb(2))
  with assms(1) la lb ra(1) rb(1) have "rab = rba"
    by (meson insertLoop_comm)
  then show ?thesis
    by (simp add: rab(2) rba(2) ra(2) rb(2))
qed

lemma insertMany_Cons:
  "Trie_insert w t = (Inr (), t1) \<Longrightarrow> insertMany (w # ws) t = insertMany ws t1"
  by simp

lemma insertMany_swap:
  assumes "allocated (m_root t)" "valid a" "valid b"
  shows "insertMany (a # b # ws) t = insertMany (b # a # ws) t"
proof -
  from Trie_insert_sem[OF assms(1,2)] obtain ta where
    ta: "Trie_insert a t = (Inr (), ta)" "allocated (m_root ta)" by blast
  from Trie_insert_sem[OF ta(2) assms(3)] obtain tab where
    tab: "Trie_insert b ta = (Inr (), tab)" by blast
  from Trie_insert_sem[OF assms(1,3)] obtain tb where
    tb: "Trie_insert b t = (Inr (), tb)" "allocated (m_root tb)" by blast
  from Trie_insert_sem[OF tb(2) assms(2)] obtain tba where
    tba: "Trie_insert a tb = (Inr (), tba)" by blast
  have "tab = tba"
    using assms ta(1) tab tb(1) tba by (rule Trie_insert_comm)
  have "insertMany (a # b # ws) t = insertMany (b # ws) ta"
    using ta(1) by (rule insertMany_Cons)
  also have "\<dots> = insertMany ws tab"
    using tab by (rule insertMany_Cons)
  also have "\<dots> = insertMany ws tba"
    by (simp only: \<open>tab = tba\<close>)
  also have "\<dots> = insertMany (a # ws) tb"
    using tba by (rule insertMany_Cons[symmetric])
  also have "\<dots> = insertMany (b # a # ws) t"
    using tb(1) by (rule insertMany_Cons[symmetric])
  finally show ?thesis .
qed

lemma insertMany_front:
  assumes "allocated (m_root t)" "\<forall>w \<in> set xs. valid w" "x \<in> set xs"
  shows "insertMany xs t = insertMany (x # removeAll x xs) t"
  using assms
proof (induction xs arbitrary: t)
  case Nil
  then show ?case by simp
next
  case (Cons y ys)
  from Cons.prems(2) have vy: "valid y" and vys: "\<forall>w \<in> set ys. valid w" by simp_all
  from Trie_insert_sem[OF Cons.prems(1) vy] obtain t1 where
    t1: "Trie_insert y t = (Inr (), t1)" "allocated (m_root t1)" by blast
  show ?case
  proof (cases "x \<in> set ys")
    case inside: True
    have ih: "insertMany ys t1 = insertMany (x # removeAll x ys) t1"
      using t1(2) vys inside by (rule Cons.IH)
    show ?thesis
    proof (cases "y = x")
      case True
      have tx: "Trie_insert x t = (Inr (), t1)" using t1(1) True by simp
      have "insertMany (y # ys) t = insertMany ys t1"
        using t1(1) by (rule insertMany_Cons)
      also have "\<dots> = insertMany (x # removeAll x ys) t1" by (rule ih)
      also have "\<dots> = insertMany (removeAll x ys) t1"
        using Trie_insert_idem[OF tx] by (rule insertMany_Cons)
      also have "\<dots> = insertMany (x # removeAll x ys) t"
        using tx by (rule insertMany_Cons[symmetric])
      finally show ?thesis using True by (simp del: insertMany.simps)
    next
      case False
      have vx: "valid x" using vys inside by simp
      have "insertMany (y # ys) t = insertMany (y # x # removeAll x ys) t"
        using ih by (simp only: insertMany_Cons[OF t1(1)])
      also have "\<dots> = insertMany (x # y # removeAll x ys) t"
        using Cons.prems(1) vy vx by (rule insertMany_swap)
      finally show ?thesis using False by (simp del: insertMany.simps)
    qed
  next
    case False
    with Cons.prems(3) have "y = x" by simp
    then show ?thesis using False by (simp del: insertMany.simps)
  qed
qed

lemma insertMany_set:
  assumes "allocated (m_root t)" "\<forall>w \<in> set xs. valid w" "set ys = set xs"
  shows "insertMany ys t = insertMany xs t"
  using assms
proof (induction "length xs" arbitrary: xs ys t rule: less_induct)
  case less
  show ?case
  proof (cases xs)
    case Nil
    then show ?thesis using less.prems(3) by simp
  next
    case (Cons x xs')
    have vx: "valid x" using less.prems(2) Cons by simp
    have vys: "\<forall>w \<in> set ys. valid w" using less.prems(2,3) by simp
    have xin: "x \<in> set xs" "x \<in> set ys" using Cons less.prems(3) by simp_all
    from Trie_insert_sem[OF less.prems(1) vx] obtain t1 where
      t1: "Trie_insert x t = (Inr (), t1)" "allocated (m_root t1)" by blast
    let ?xs = "removeAll x xs" and ?ys = "removeAll x ys"
    have "length ?xs < length xs"
      using xin(1) by (rule length_removeAll_less)
    moreover have "\<forall>w \<in> set ?xs. valid w" using less.prems(2) by simp
    moreover have "set ?ys = set ?xs" using less.prems(3) by simp
    ultimately have ih: "insertMany ?ys t1 = insertMany ?xs t1"
      using t1(2) by (intro less.hyps)
    have "insertMany ys t = insertMany (x # ?ys) t"
      using less.prems(1) vys xin(2) by (rule insertMany_front)
    also have "\<dots> = insertMany ?ys t1" using t1(1) by (rule insertMany_Cons)
    also have "\<dots> = insertMany ?xs t1" by (rule ih)
    also have "\<dots> = insertMany (x # ?xs) t" using t1(1) by (rule insertMany_Cons[symmetric])
    also have "\<dots> = insertMany xs t"
      using less.prems(1,2) xin(1) by (rule insertMany_front[symmetric])
    finally show ?thesis .
  qed
qed

text \<open>
  C5. Insert is idempotent: on a trie \<open>t\<close> built from a fresh one by valid insertions, for a
  valid word \<open>w\<close>, \<^verbatim>\<open>t.insert(w)\<close> returns with a trie \<open>t1\<close>, and a second \<^verbatim>\<open>insert(w)\<close> returns
  with the same trie again; so \<^verbatim>\<open>isWord\<close> answers the same on every input and \<^verbatim>\<open>getWords\<close>
  returns the same list after one insertion and after two.
\<close>

theorem insert_idempotent:
  assumes "\<forall>v \<in> set ws. valid v" and "valid w"
  shows "\<exists>t t1 t2. insertMany ws Trie_new = (Inr (), t) \<and>
           Trie_insert w t = (Inr (), t1) \<and> Trie_insert w t1 = (Inr (), t2) \<and> t2 = t1 \<and>
           (\<forall>v. fst (Trie_isWord v t2) = fst (Trie_isWord v t1)) \<and>
           fst (Trie_getWords t2) = fst (Trie_getWords t1)"
proof -
  from insertMany_sem[OF allocated_root_new assms(1)] obtain t where
    t: "insertMany ws Trie_new = (Inr (), t)" "allocated (m_root t)" by blast
  from Trie_insert_sem[OF t(2) assms(2)] obtain t1 where
    t1: "Trie_insert w t = (Inr (), t1)" by blast
  from Trie_insert_idem[OF t1] t(1) t1 show ?thesis by simp
qed

theorem insert_idempotent_witness:
  "valid ''ab'' \<and> valid ''a'' \<and>
   (\<exists>t t1 t2. insertMany [''ab''] Trie_new = (Inr (), t) \<and>
           Trie_insert ''a'' t = (Inr (), t1) \<and> Trie_insert ''a'' t1 = (Inr (), t2) \<and> t2 = t1 \<and>
           (\<forall>v. fst (Trie_isWord v t2) = fst (Trie_isWord v t1)) \<and>
           fst (Trie_getWords t2) = fst (Trie_getWords t1))"
proof -
  have h1: "\<forall>v \<in> set [''ab'']. valid v" and h2: "valid ''a''"
    by (simp_all add: valid_def isLower_def islower_def)
  from insert_idempotent[OF h1 h2] show ?thesis
    using h1 h2 by (simp del: insertMany.simps)
qed

text \<open>
  C6. Insert order is irrelevant: two lists \<open>xs\<close> and \<open>ys\<close> of valid words with the same
  elements (in particular two permutations of a finite set of valid words), inserted into fresh
  tries, both return and give the same trie; so \<^verbatim>\<open>isWord\<close> answers the same on every input
  and \<^verbatim>\<open>getWords\<close> returns the same list on both.
\<close>

theorem insert_order_irrelevant:
  assumes "\<forall>v \<in> set xs. valid v" and "set ys = set xs"
  shows "\<exists>t1 t2. insertMany xs Trie_new = (Inr (), t1) \<and> insertMany ys Trie_new = (Inr (), t2) \<and>
           t1 = t2 \<and>
           (\<forall>w. fst (Trie_isWord w t1) = fst (Trie_isWord w t2)) \<and>
           fst (Trie_getWords t1) = fst (Trie_getWords t2)"
proof -
  from insertMany_sem[OF allocated_root_new assms(1)] obtain t where
    t: "insertMany xs Trie_new = (Inr (), t)" by blast
  moreover have "insertMany ys Trie_new = insertMany xs Trie_new"
    using allocated_root_new assms by (rule insertMany_set)
  ultimately show ?thesis by simp
qed

theorem insert_order_irrelevant_witness:
  "valid ''ab'' \<and> valid ''ac'' \<and> valid ''b'' \<and>
   set [''b'', ''ab'', ''ac''] = set [''ab'', ''ac'', ''b''] \<and>
   (\<exists>t1 t2. insertMany [''ab'', ''ac'', ''b''] Trie_new = (Inr (), t1) \<and>
        insertMany [''b'', ''ab'', ''ac''] Trie_new = (Inr (), t2) \<and> t1 = t2 \<and>
        (\<forall>w. fst (Trie_isWord w t1) = fst (Trie_isWord w t2)) \<and>
        fst (Trie_getWords t1) = fst (Trie_getWords t2))"
proof -
  have h1: "\<forall>v \<in> set [''ab'', ''ac'', ''b'']. valid v"
    by (simp add: valid_def isLower_def islower_def)
  have h2: "set [''b'', ''ab'', ''ac''] = set [''ab'', ''ac'', ''b'']"
    by auto
  from insert_order_irrelevant[OF h1 h2] show ?thesis
    using h1 h2 by (simp del: insertMany.simps)
qed

end
